theory Spec2Isabelle
  imports Main "HOL-Library.AList" "HOL-Library.Char_ord" "HOL-Library.List_Lexorder"
begin

section \<open>Strings\<close>

text \<open>
  A Python \<open>str\<close> is modelled as a \<open>string\<close>, one \<open>char\<close> per code point, so that
  \<open>length\<close> is Python's \<open>len\<close>. The order on strings (lexicographic, by character code,
  a proper prefix first) is the order Python's \<open>sorted\<close> uses on \<open>str\<close>.
\<close>

definition is_space :: "char \<Rightarrow> bool" where
  \<comment> \<open>\<open>str.isspace\<close> on the code points below 256: the separators of \<open>str.split()\<close>.\<close>
  "is_space c = ((of_char c :: nat) \<in> {9, 10, 11, 12, 13, 28, 29, 30, 31, 32, 133, 160})"

fun split_from :: "string \<Rightarrow> string \<Rightarrow> string list" where
  \<comment> \<open>scanning left to right; \<open>cur\<close> is the word read so far\<close>
  "split_from cur [] = (if cur = [] then [] else [cur])"
| "split_from cur (c # cs) =
     (if is_space c then (if cur = [] then split_from [] cs else cur # split_from [] cs)
      else split_from (cur @ [c]) cs)"

definition py_split :: "string \<Rightarrow> string list" where
  \<comment> \<open>\<open>text.split()\<close>: the maximal runs of non-whitespace characters, in order\<close>
  "py_split text = split_from [] text"

definition is_word :: "string \<Rightarrow> bool" where
  \<comment> \<open>what \<open>split()\<close> yields: a non-empty string without whitespace\<close>
  "is_word w = (w \<noteq> [] \<and> (\<forall>c \<in> set w. \<not> is_space c))"

fun join_sp :: "string list \<Rightarrow> string" where
  \<comment> \<open>\<open>' '.join(parts)\<close>\<close>
  "join_sp [] = []"
| "join_sp [w] = w"
| "join_sp (w # v # ws) = w @ '' '' @ join_sp (v # ws)"

definition ljust :: "nat \<Rightarrow> string \<Rightarrow> string" where
  \<comment> \<open>\<open>s.ljust(width)\<close>: pads on the right with spaces, never shortens\<close>
  "ljust width s = s @ replicate (width - length s) (CHR '' '')"

section \<open>TextLayout: \<open>justify_text\<close> and \<open>wrap_text_justified\<close>\<close>

fun justify_gaps :: "nat \<Rightarrow> nat \<Rightarrow> nat \<Rightarrow> string list \<Rightarrow> string list" where
  \<comment> \<open>the loop over \<open>enumerate(words[:-1])\<close>, \<open>i\<close> the running index: the word, then its gap\<close>
  "justify_gaps i spaces_per_gap extra_spaces [] = []"
| "justify_gaps i spaces_per_gap extra_spaces (word # rest) =
     word # replicate (spaces_per_gap + (if i < extra_spaces then 1 else 0)) (CHR '' '')
       # justify_gaps (Suc i) spaces_per_gap extra_spaces rest"

definition justify_text :: "string \<Rightarrow> nat \<Rightarrow> string" where
  \<comment> \<open>In the last branch \<open>total_chars \<le> len(text) < width\<close> (lemma \<open>total_chars_le\<close>), so the
      subtraction is Python's.\<close>
  "justify_text text width =
     (let words = py_split text in
      if length words \<le> 1 \<or> length text \<ge> width then ljust width text
      else
        let total_chars = sum_list (map length words);
            total_gaps = length words - 1;
            total_spaces_needed = width - total_chars
        in if total_gaps = 0 then ljust width text
           else
             let spaces_per_gap = total_spaces_needed div total_gaps;
                 extra_spaces = total_spaces_needed mod total_gaps
             in concat (justify_gaps 0 spaces_per_gap extra_spaces (butlast words) @ [last words]))"

fun wrap_loop ::
  "nat \<Rightarrow> bool \<Rightarrow> string list \<Rightarrow> string list \<Rightarrow> string list \<Rightarrow> nat \<Rightarrow> string list \<times> string list"
where
  \<comment> \<open>the loop \<open>for word in words\<close> on the state \<open>(lines, current_line, current_length)\<close>;
      it returns \<open>(lines, current_line)\<close>\<close>
  "wrap_loop width justify [] lines current_line current_length = (lines, current_line)"
| "wrap_loop width justify (word # words) lines current_line current_length =
     (let word_len = length word in
      if current_length + word_len + length current_line \<le> width
      then wrap_loop width justify words lines (current_line @ [word]) (current_length + word_len)
      else
        wrap_loop width justify words
          (if current_line \<noteq> []
           then (let line_text = join_sp current_line
                 in lines @ [if justify then justify_text line_text width else line_text])
           else lines)
          [word] word_len)"

definition wrap_text_justified :: "string \<Rightarrow> nat \<Rightarrow> bool \<Rightarrow> string list" where
  "wrap_text_justified text width justify =
     (case wrap_loop width justify (py_split text) [] [] 0 of
        (lines, current_line) \<Rightarrow>
          (let lines' = (if current_line \<noteq> [] then lines @ [join_sp current_line] else lines)
           in if lines' \<noteq> [] then lines' else [[]]))"

section \<open>ReportExtractor: citations, sections and the table preview\<close>

text \<open>
  A citation as \<open>extract_sections_with_content\<close> retains it; its \<open>paper\<close> entry is opaque
  metadata that nothing reads, and is left out. A section carries its title, its cleaned
  text, its table (\<open>None\<close> for Python's \<open>None\<close>) and its citations in order.
\<close>

record citation =
  corpus_id :: string
  display :: string

datatype 'a field = Absent | Null | Val 'a
  \<comment> \<open>a key of a JSON object: missing, present with \<open>null\<close>, present with a value\<close>

definition get_default :: "'a field \<Rightarrow> 'a option \<Rightarrow> 'a option" where
  \<comment> \<open>\<open>d.get(key, default)\<close>; the result \<open>None\<close> is Python's \<open>None\<close>\<close>
  "get_default f dflt = (case f of Absent \<Rightarrow> dflt | Null \<Rightarrow> None | Val v \<Rightarrow> Some v)"

record table_row =
  row_id :: "string field"
  displayValue :: "string field"

record table_data =
  table_title :: "string field"
  columns :: "string list field"
  rows :: "table_row list field"
  cells :: "(string \<times> string) list field"
  other_keys :: "string list"

record report_section =
  title :: string
  section_text :: string
  table :: "table_data option"
  citations :: "citation list"

definition empty_dict :: "table_data \<Rightarrow> bool" where
  \<comment> \<open>the table object \<open>{}\<close>: it has none of the four keys that \<open>format_table\<close> reads
      and no other key (\<open>other_keys\<close> lists the keys it has besides the four)\<close>
  "empty_dict t =
     (table_title t = Absent \<and> columns t = Absent \<and> rows t = Absent \<and> cells t = Absent
      \<and> other_keys t = [])"

definition truthy_str :: "string option \<Rightarrow> bool" where
  "truthy_str v = (case v of None \<Rightarrow> False | Some s \<Rightarrow> s \<noteq> [])"

definition truthy_list :: "'a list option \<Rightarrow> bool" where
  "truthy_list v = (case v of None \<Rightarrow> False | Some xs \<Rightarrow> xs \<noteq> [])"

fun show_nat :: "nat \<Rightarrow> string" where
  \<comment> \<open>the decimal digits of a number, as an f-string prints it\<close>
  "show_nat n =
     (if n < 10 then [char_of (48 + n)] else show_nat (n div 10) @ [char_of (48 + n mod 10)])"

definition bullet :: char where
  \<comment> \<open>the bullet U+2022 is one code point beyond the range of \<open>char\<close>: one \<open>char\<close> stands
      for it, so that a line with it has Python's length; the code 149, a control character
      that no displayed value is taken to hold, is chosen for it\<close>
  "bullet = char_of (149 :: nat)"

definition row_line :: "table_row \<Rightarrow> string" where
  "row_line row =
     (let display_val = (case get_default (displayValue row) (Some ''N/A'') of
                           None \<Rightarrow> ''None'' | Some s \<Rightarrow> s)
      in ''  '' @ [bullet] @ '' '' @ display_val)"

definition format_table :: "table_data option \<Rightarrow> nat \<Rightarrow> string list" where
  "format_table table_data width =
     (case table_data of
        None \<Rightarrow> []
      | Some t \<Rightarrow>
          if empty_dict t then []
          else
            let title = get_default (table_title t) (Some ''Table'');
                lines = (if truthy_str title
                         then [''TABLE: '' @ (case title of Some s \<Rightarrow> s | None \<Rightarrow> []), []]
                         else []);
                columns = get_default (columns t) (Some []);
                rows = get_default (rows t) (Some [])
            in if \<not> truthy_list columns \<or> \<not> truthy_list rows
               then lines @ [''(Table data structure not fully populated)'']
               else
                 let rs = (case rows of Some xs \<Rightarrow> xs | None \<Rightarrow> [])
                 in lines @ [''Table Contents:''] @ map row_line (take 5 rs)
                    @ (if length rs > 5
                       then [''  ... and '' @ show_nat (length rs - 5) @ '' more rows'']
                       else []))"

definition not_populated :: string where
  \<comment> \<open>the placeholder line of \<open>format_table\<close>\<close>
  "not_populated = ''(Table data structure not fully populated)''"

definition lacks_structure :: "table_data \<Rightarrow> bool" where
  \<comment> \<open>the test \<open>not columns or not rows\<close> of \<open>format_table\<close>\<close>
  "lacks_structure t =
     (\<not> truthy_list (get_default (columns t) (Some []))
      \<or> \<not> truthy_list (get_default (rows t) (Some [])))"

section \<open>DoiResolver\<close>

text \<open>
  What one request to the lookup service can do to \<open>fetch_doi_from_semantic_scholar\<close>:
  answer with a body (of which only the DOI entry of \<open>externalIds\<close> is read, \<open>None\<close> when it
  is missing or \<open>null\<close>), raise an \<open>HTTPError\<close> with a status code, raise another
  \<open>RequestException\<close>, or raise an exception the function does not catch (a body of the
  wrong shape).
\<close>

datatype response = Body "string option" | HTTPError nat | RequestException | OtherException

datatype error = Uncaught

fun fetch_attempts ::
  "(nat \<Rightarrow> response) \<Rightarrow> nat \<Rightarrow> nat list \<Rightarrow> nat list \<Rightarrow> nat
     \<Rightarrow> (error + string option) \<times> nat list \<times> nat"
where
  \<comment> \<open>the loop \<open>for attempt in range(max_retries)\<close>; \<open>get attempt\<close> is the outcome of the
      request of that attempt, \<open>slept\<close> the arguments of \<open>time.sleep\<close> so far, \<open>sent\<close> the
      number of calls of \<open>requests.get\<close> so far: one at the start of every round. Within the
      loop \<open>max_retries\<close> is positive, so \<open>max_retries - 1\<close> is Python's.\<close>
  "fetch_attempts get max_retries [] slept sent = (Inr None, slept, sent)"
| "fetch_attempts get max_retries (attempt # rest) slept sent =
     (case get attempt of
        Body doi \<Rightarrow> (Inr doi, slept, Suc sent)
      | HTTPError status_code \<Rightarrow>
          if status_code = 429
          then (let wait_time = 2 ^ attempt * 3 in
                if attempt < max_retries - 1
                then fetch_attempts get max_retries rest (slept @ [wait_time]) (Suc sent)
                else (Inr None, slept, Suc sent))
          else (Inr None, slept, Suc sent)
      | RequestException \<Rightarrow> (Inr None, slept, Suc sent)
      | OtherException \<Rightarrow> (Inl Uncaught, slept, Suc sent))"

definition fetch_doi_from_semantic_scholar ::
  "(nat \<Rightarrow> response) \<Rightarrow> nat \<Rightarrow> (error + string option) \<times> nat list \<times> nat" where
  \<comment> \<open>the result (or the exception that escapes), the seconds slept, in order, and the
      number of requests sent\<close>
  "fetch_doi_from_semantic_scholar get max_retries =
     fetch_attempts get max_retries [0..<max_retries] [] 0"

text \<open>
  The cache is a Python dict from corpus id to a DOI or \<open>None\<close>: an association list in
  insertion order, read with \<open>map_of\<close> and assigned with \<open>AList.update\<close>.
\<close>

type_synonym doi_cache = "(string \<times> string option) list"

definition cache_get :: "doi_cache \<Rightarrow> string \<Rightarrow> string option" where
  \<comment> \<open>\<open>doi_cache.get(corpus_id)\<close>\<close>
  "cache_get doi_cache cid = (case map_of doi_cache cid of None \<Rightarrow> None | Some v \<Rightarrow> v)"

definition all_citations :: "report_section list \<Rightarrow> citation list" where
  "all_citations sections = concat (map citations sections)"

definition import_citation ::
  "(string \<times> string) list \<Rightarrow> citation \<Rightarrow> doi_cache \<Rightarrow> doi_cache" where
  "import_citation citation_text_map citation doi_cache =
     (let corpus_id = corpus_id citation; display_name = display citation in
      case map_of citation_text_map display_name of
        Some doi \<Rightarrow>
          if map_of doi_cache corpus_id = None
          then AList.update corpus_id (Some doi) doi_cache
          else doi_cache
      | None \<Rightarrow> doi_cache)"

definition import_legacy ::
  "(string \<times> string) list \<Rightarrow> report_section list \<Rightarrow> doi_cache \<Rightarrow> doi_cache" where
  \<comment> \<open>lines 293 to 309 of \<open>main\<close>: the match of the legacy map against the report\<close>
  "import_legacy citation_text_map sections doi_cache =
     (if citation_text_map \<noteq> []
      then fold (\<lambda>section. fold (import_citation citation_text_map) (citations section))
             sections doi_cache
      else doi_cache)"

definition to_fetch :: "string list \<Rightarrow> doi_cache \<Rightarrow> string list" where
  \<comment> \<open>\<open>unique_corpus_ids\<close> is given as the list of its elements in the order the set is
      iterated\<close>
  "to_fetch unique_corpus_ids doi_cache =
     filter (\<lambda>corpus_id. map_of doi_cache corpus_id = None) unique_corpus_ids"

record run_state =
  cache :: doi_cache
  lookups :: "string list"
  requests :: "string list"
  slept :: "nat list"

fun fetch_each ::
  "(string \<Rightarrow> nat \<Rightarrow> response) \<Rightarrow> nat \<Rightarrow> nat \<Rightarrow> string list \<Rightarrow> run_state
     \<Rightarrow> (error + unit) \<times> run_state"
where
  \<comment> \<open>the loop \<open>for i, corpus_id in enumerate(to_fetch, 1)\<close>, \<open>n = len(to_fetch)\<close>;
      \<open>lookups\<close> records the calls of \<open>fetch_doi_from_semantic_scholar\<close>, \<open>requests\<close> the
      corpus id of every request sent to the service\<close>
  "fetch_each service n i [] s = (Inr (), s)"
| "fetch_each service n i (cid # rest) s =
     (case fetch_doi_from_semantic_scholar (service cid) 5 of
        (result, waits, sent) \<Rightarrow>
          (let s1 = s\<lparr>lookups := lookups s @ [cid],
                      requests := requests s @ replicate sent cid,
                      slept := slept s @ waits\<rparr> in
           case result of
             Inl e \<Rightarrow> (Inl e, s1)
           | Inr doi \<Rightarrow>
               (let s2 = s1\<lparr>cache := AList.update cid doi (cache s1)\<rparr>;
                    s3 = (if i < n then s2\<lparr>slept := slept s2 @ [2]\<rparr> else s2)
                in fetch_each service n (Suc i) rest s3)))"

definition resolve_all ::
  "(string \<Rightarrow> nat \<Rightarrow> response) \<Rightarrow> string list \<Rightarrow> (string \<times> string) list \<Rightarrow> report_section list
     \<Rightarrow> doi_cache \<Rightarrow> (error + unit) \<times> run_state" where
  \<comment> \<open>lines 286 to 340 of \<open>main\<close>, from the loaded cache to the start of rendering\<close>
  "resolve_all service unique_corpus_ids citation_text_map sections loaded =
     (let doi_cache = import_legacy citation_text_map sections loaded;
          to_fetch = to_fetch unique_corpus_ids doi_cache
      in fetch_each service (length to_fetch) 1 to_fetch
           \<lparr>cache = doi_cache, lookups = [], requests = [], slept = []\<rparr>)"

definition iterates :: "string list \<Rightarrow> report_section list \<Rightarrow> bool" where
  \<comment> \<open>\<open>ids\<close> lists the set \<open>unique_corpus_ids\<close> of the sections, each element once\<close>
  "iterates ids sections =
     (distinct ids \<and> set ids = set (map corpus_id (all_citations sections)))"

section \<open>ReportRenderer\<close>

definition add_reference ::
  "doi_cache \<Rightarrow> citation \<Rightarrow> (string \<times> string option) list \<Rightarrow> (string \<times> string option) list" where
  "add_reference doi_cache citation all_references =
     (let display_name = display citation;
          corpus_id = corpus_id citation;
          doi = cache_get doi_cache corpus_id
      in if map_of all_references display_name = None
         then AList.update display_name doi all_references
         else all_references)"

definition all_references :: "report_section list \<Rightarrow> doi_cache \<Rightarrow> (string \<times> string option) list" where
  "all_references sections doi_cache =
     fold (\<lambda>section. fold (add_reference doi_cache) (citations section)) sections []"

definition sorted_refs :: "report_section list \<Rightarrow> doi_cache \<Rightarrow> (string \<times> string option) list" where
  \<comment> \<open>\<open>sorted(all_references.items())\<close>: the pairs are compared by name first, and the
      names, being keys of one dict, differ (lemma \<open>distinct_all_references\<close>)\<close>
  "sorted_refs sections doi_cache = sort_key fst (all_references sections doi_cache)"

definition reference_line :: "string \<times> string option \<Rightarrow> string" where
  "reference_line ref =
     (case ref of (ref_name, ref_doi) \<Rightarrow>
        (let doi_url = (if truthy_str ref_doi
                        then ''https://doi.org/'' @ (case ref_doi of Some d \<Rightarrow> d | None \<Rightarrow> [])
                        else ''NO DOI FOUND'')
         in ref_name @ '' -> '' @ doi_url))"

definition reference_lines :: "report_section list \<Rightarrow> doi_cache \<Rightarrow> string list" where
  "reference_lines sections doi_cache = map reference_line (sorted_refs sections doi_cache)"

text \<open>
  The reference list in the specification's words: the display names of all citations of
  all sections, each once, in ascending order; with each name the DOI that the cache holds
  for the first citation, in section order, that carries the name; a line with the DOI's URL
  when a DOI is there, and with \<open>NO DOI FOUND\<close> when it is not. A DOI is there when the
  value is a non-empty string: \<open>None\<close> and the empty string are both no DOI.
\<close>

definition first_seen_doi :: "report_section list \<Rightarrow> doi_cache \<Rightarrow> string \<Rightarrow> string option" where
  "first_seen_doi sections doi_cache name =
     (case find (\<lambda>c. display c = name) (all_citations sections) of
        None \<Rightarrow> None
      | Some c \<Rightarrow> cache_get doi_cache (corpus_id c))"

definition spec_references :: "report_section list \<Rightarrow> doi_cache \<Rightarrow> (string \<times> string option) list" where
  "spec_references sections doi_cache =
     map (\<lambda>name. (name, first_seen_doi sections doi_cache name))
       (sorted_list_of_set (set (map display (all_citations sections))))"

definition spec_reference_line :: "string \<Rightarrow> string option \<Rightarrow> string" where
  "spec_reference_line display_name doi =
     (case doi of
        None \<Rightarrow> display_name @ '' -> NO DOI FOUND''
      | Some d \<Rightarrow>
          if d = [] then display_name @ '' -> NO DOI FOUND''
          else display_name @ '' -> https://doi.org/'' @ d)"

definition left_width :: nat where "left_width = 95"

definition right_width :: nat where "right_width = 80"

definition build_right_content :: "report_section list \<Rightarrow> doi_cache \<Rightarrow> string list" where
  \<comment> \<open>the list \<open>right_content\<close> of \<open>main\<close>\<close>
  "build_right_content sections doi_cache =
     [replicate right_width (CHR ''=''), [], replicate right_width (CHR ''=''), [],
      replicate right_width (CHR ''=''), ''REFERENCES (Alphabetical)'',
      replicate right_width (CHR ''='')]
     @ reference_lines sections doi_cache
     @ [replicate right_width (CHR ''='')]"

definition line_or_empty :: "string list \<Rightarrow> nat \<Rightarrow> string" where
  \<comment> \<open>\<open>content[i] if i < len(content) else ""\<close>\<close>
  "line_or_empty content i = (if i < length content then content ! i else [])"

definition write_columns :: "string list \<Rightarrow> string list \<Rightarrow> string list" where
  \<comment> \<open>the strings given to \<open>f.write\<close>, in order\<close>
  "write_columns left_content right_content =
     (let max_lines = max (length left_content) (length right_content) in
      map (\<lambda>i. ljust left_width (line_or_empty left_content i) @ '' | ''
                 @ line_or_empty right_content i @ [CHR 0x0A])
          [0..<max_lines])"

definition pad_or_truncate :: "nat \<Rightarrow> string \<Rightarrow> string" where
  \<comment> \<open>the specification's words for the left column: padded or truncated to exactly the
      width\<close>
  "pad_or_truncate width s = take width (s @ replicate (width - length s) (CHR '' ''))"

section \<open>Example inputs\<close>

definition always_rate_limited :: "nat \<Rightarrow> response" where
  \<comment> \<open>a service that answers every attempt with status 429\<close>
  "always_rate_limited attempt = HTTPError 429"

definition pangram :: string where
  "pangram = ''the quick brown fox jumps over the lazy dog''"

definition untitled_table :: table_data where
  "untitled_table =
     \<lparr>table_title = Absent, columns = Absent,
      rows = Val [\<lparr>row_id = Val ''r1'', displayValue = Val ''first row''\<rparr>], cells = Absent,
      other_keys = []\<rparr>"

definition id_only_table :: table_data where
  \<comment> \<open>the table \<open>{"id": "t1"}\<close>\<close>
  "id_only_table =
     \<lparr>table_title = Absent, columns = Absent, rows = Absent, cells = Absent,
      other_keys = [''id'']\<rparr>"

definition long_line :: string where
  "long_line = replicate 96 (CHR ''x'')"

definition cite :: "string \<Rightarrow> string \<Rightarrow> citation" where
  "cite cid label = \<lparr>corpus_id = cid, display = label\<rparr>"

definition citing :: "string \<Rightarrow> citation list \<Rightarrow> report_section" where
  "citing heading cs = \<lparr>title = heading, section_text = [], table = None, citations = cs\<rparr>"

definition legacy_report :: "report_section list" where
  "legacy_report = [citing ''Background'' [cite ''5'' ''(X)'', cite ''6'' ''(Y)'']]"

definition two_section_report :: "report_section list" where
  "two_section_report =
     [citing ''First'' [cite ''1'' ''(A, 2020)'', cite ''2'' ''(B, 2021)''],
      citing ''Second'' [cite ''2'' ''(B, 2021)'', cite ''3'' ''(C, 2019)'', cite ''1'' ''(A, 2020)'']]"

definition sample_service :: "string \<Rightarrow> nat \<Rightarrow> response" where
  "sample_service cid attempt =
     (if cid = ''2'' then Body (Some ''10.1/y'')
      else if attempt < 1 then HTTPError 429 else Body None)"

definition sample_cache :: doi_cache where
  "sample_cache = [(''3'', Some ''10.1/z''), (''1'', Some ''10.1/x''), (''2'', None)]"

section \<open>Splitting and joining\<close>

lemma split_from_words:
  "\<forall>c \<in> set cur. \<not> is_space c \<Longrightarrow> \<forall>w \<in> set (split_from cur t). is_word w"
proof (induction t arbitrary: cur)
  case Nil
  then show ?case by (simp add: is_word_def)
next
  case (Cons c cs)
  have e: "\<forall>w \<in> set (split_from [] cs). is_word w" by (rule Cons.IH) simp
  show ?case
  proof (cases "is_space c")
    case True
    then show ?thesis using e Cons.prems by (auto simp: is_word_def)
  next
    case False
    then have "\<forall>w \<in> set (split_from (cur @ [c]) cs). is_word w"
      using Cons.prems by (intro Cons.IH) auto
    then show ?thesis using False by simp
  qed
qed

lemma py_split_words: "\<forall>w \<in> set (py_split t). is_word w"
  using split_from_words[of "[]" t] by (simp add: py_split_def)

lemma split_from_append_word:
  "\<forall>c \<in> set w. \<not> is_space c \<Longrightarrow> split_from cur (w @ t) = split_from (cur @ w) t"
  by (induction w arbitrary: cur) auto

lemma split_from_join:
  "\<forall>w \<in> set ws. is_word w \<Longrightarrow> split_from [] (join_sp ws) = ws"
proof (induction ws rule: join_sp.induct)
  case 1
  then show ?case by simp
next
  case (2 w)
  then have "split_from [] (w @ []) = split_from ([] @ w) []"
    by (intro split_from_append_word) (simp add: is_word_def)
  with 2 show ?case by (simp add: is_word_def)
next
  case (3 w v ws)
  then have w: "w \<noteq> []" "\<forall>c \<in> set w. \<not> is_space c" by (simp_all add: is_word_def)
  have sp: "is_space (CHR '' '')" by (simp add: is_space_def)
  have "split_from [] (w @ CHR '' '' # join_sp (v # ws))
      = split_from ([] @ w) (CHR '' '' # join_sp (v # ws))"
    using w(2) by (rule split_from_append_word)
  also have "\<dots> = w # split_from [] (join_sp (v # ws))"
    using w(1) sp by simp
  finally show ?case using 3 by simp
qed

lemma py_split_join: "\<forall>w \<in> set ws. is_word w \<Longrightarrow> py_split (join_sp ws) = ws"
  by (simp add: py_split_def split_from_join)

lemma split_from_total: "sum_list (map length (split_from cur t)) \<le> length cur + length t"
proof (induction t arbitrary: cur)
  case Nil
  then show ?case by simp
next
  case (Cons c cs)
  show ?case using Cons.IH[of "[]"] Cons.IH[of "cur @ [c]"] by auto
qed

lemma total_chars_le: "sum_list (map length (py_split t)) \<le> length t"
  using split_from_total[of "[]" t] by (simp add: py_split_def)

lemma length_join_sp:
  "ws \<noteq> [] \<Longrightarrow> length (join_sp ws) + 1 = sum_list (map length ws) + length ws"
  by (induction ws rule: join_sp.induct) auto

lemma join_sp_append:
  "xs \<noteq> [] \<Longrightarrow> ys \<noteq> [] \<Longrightarrow> join_sp (xs @ ys) = join_sp xs @ '' '' @ join_sp ys"
proof (induction xs rule: join_sp.induct)
  case 1
  then show ?case by simp
next
  case (2 w)
  then show ?case by (cases ys) simp_all
next
  case (3 w v ws)
  then show ?case by simp
qed

lemma join_sp_nested:
  assumes "ys \<noteq> []"
  shows "join_sp (xs @ [join_sp ys] @ zs) = join_sp (xs @ ys @ zs)"
proof -
  have right: "join_sp ([join_sp ys] @ zs) = join_sp (ys @ zs)"
  proof (cases "zs = []")
    case True
    then show ?thesis by simp
  next
    case False
    then show ?thesis using assms by (cases zs) (simp_all add: join_sp_append)
  qed
  show ?thesis
  proof (cases "xs = []")
    case True
    then show ?thesis using right by simp
  next
    case False
    then have "join_sp (xs @ ([join_sp ys] @ zs))
        = join_sp xs @ '' '' @ join_sp ([join_sp ys] @ zs)"
      by (intro join_sp_append) simp_all
    moreover have "join_sp (xs @ (ys @ zs)) = join_sp xs @ '' '' @ join_sp (ys @ zs)"
      using False assms by (intro join_sp_append) simp_all
    ultimately show ?thesis using right by simp
  qed
qed

section \<open>Justified lines\<close>

lemma length_ljust: "length (ljust width s) = max width (length s)"
  by (simp add: ljust_def)

lemma length_justify_gaps:
  "length (concat (justify_gaps i q r ws)) =
     sum_list (map length ws) + q * length ws + (min r (i + length ws) - min r i)"
  by (induction ws arbitrary: i) (auto simp: min_def)

lemma sum_butlast_last:
  "ws \<noteq> [] \<Longrightarrow> sum_list (map length (butlast ws)) + length (last ws) = sum_list (map length ws)"
  by (induction ws) auto

text \<open>A line of words that fits the width is stretched, or padded, to exactly the width.\<close>

lemma justify_text_length:
  assumes words: "\<forall>w \<in> set ws. is_word w" and ne: "ws \<noteq> []"
    and fit: "length (join_sp ws) \<le> width"
  shows "length (justify_text (join_sp ws) width) = width"
proof -
  let ?line = "join_sp ws"
  have sp: "py_split ?line = ws" using words by (rule py_split_join)
  show ?thesis
  proof (cases "length ws \<le> 1 \<or> length ?line \<ge> width")
    case True
    then have "justify_text ?line width = ljust width ?line"
      by (simp add: justify_text_def sp)
    then show ?thesis using fit by (simp add: length_ljust)
  next
    case False
    define g where "g = length ws - 1"
    define tc where "tc = sum_list (map length ws)"
    define s where "s = width - tc"
    have g: "g > 0" using False by (simp add: g_def)
    have len: "length ?line + 1 = tc + length ws"
      using length_join_sp[OF ne] by (simp add: tc_def)
    have tcw: "tc \<le> width" using len fit ne by (cases ws) auto
    have jt: "justify_text ?line width =
        concat (justify_gaps 0 (s div g) (s mod g) (butlast ws) @ [last ws])"
      using False g by (simp add: justify_text_def sp Let_def g_def s_def tc_def)
    have lb: "length ws - Suc 0 = g" by (simp add: g_def)
    have "s mod g < g" using g by simp
    then have m: "min (s mod g) (0 + g) - min (s mod g) 0 = s mod g" by simp
    have "length (justify_text ?line width) =
        sum_list (map length (butlast ws)) + (s div g) * g + s mod g + length (last ws)"
      unfolding jt using m by (simp add: length_justify_gaps lb)
    also have "\<dots> = tc + s"
      using sum_butlast_last[OF ne] by (simp add: tc_def)
    also have "\<dots> = width" using tcw by (simp add: s_def)
    finally show ?thesis .
  qed
qed

lemma wrap_loop_justified:
  assumes "\<forall>w \<in> set ws. is_word w \<and> length w \<le> W"
    and "\<forall>w \<in> set cur. is_word w"
    and "len = sum_list (map length cur)"
    and "cur \<noteq> [] \<longrightarrow> length (join_sp cur) \<le> W"
    and "\<forall>l \<in> set lines. length l = W"
    and "wrap_loop W True ws lines cur len = (lines', cur')"
  shows "(\<forall>l \<in> set lines'. length l = W) \<and> (ws \<noteq> [] \<or> cur \<noteq> [] \<longrightarrow> cur' \<noteq> [])"
  using assms
proof (induction ws arbitrary: lines cur len)
  case Nil
  then show ?case by simp
next
  case (Cons w ws)
  have w: "is_word w" "length w \<le> W" using Cons.prems(1) by simp_all
  show ?case
  proof (cases "len + length w + length cur \<le> W")
    case True
    then have run: "wrap_loop W True ws lines (cur @ [w]) (len + length w) = (lines', cur')"
      using Cons.prems(6) by simp
    have "length (join_sp (cur @ [w])) + 1
        = sum_list (map length (cur @ [w])) + length (cur @ [w])"
      by (rule length_join_sp) simp
    then have fit: "length (join_sp (cur @ [w])) \<le> W"
      using True Cons.prems(3) by simp
    have "(\<forall>l \<in> set lines'. length l = W) \<and> (ws \<noteq> [] \<or> cur @ [w] \<noteq> [] \<longrightarrow> cur' \<noteq> [])"
      using Cons.prems(1,2,3,5) w fit run by (intro Cons.IH) auto
    then show ?thesis by simp
  next
    case False
    let ?lines = "if cur \<noteq> [] then lines @ [justify_text (join_sp cur) W] else lines"
    have run: "wrap_loop W True ws ?lines [w] (length w) = (lines', cur')"
      using Cons.prems(6) False by (cases "cur = []") (simp_all add: Let_def)
    have fl: "\<forall>l \<in> set ?lines. length l = W"
      using Cons.prems(2,4,5) by (auto simp: justify_text_length)
    have "(\<forall>l \<in> set lines'. length l = W) \<and> (ws \<noteq> [] \<or> [w] \<noteq> [] \<longrightarrow> cur' \<noteq> [])"
      using Cons.prems(1) w fl run by (intro Cons.IH) auto
    then show ?thesis by simp
  qed
qed

text \<open>
  Claim C4, as stated: every line of the justified wrap of a text, except the last one, is
  exactly \<open>W\<close> characters long, for every text and every width. It fails where a word is
  longer than the width: the word is a line of its own, and \<open>ljust\<close> does not shorten it.
\<close>

theorem wrap_justified_width_counterexample:
  "\<not> (\<forall>l \<in> set (butlast (wrap_text_justified ''abcdef gh'' 3 True)). length l = 3)"
  by (simp add: wrap_text_justified_def py_split_def is_space_def justify_text_def ljust_def)

text \<open>
  Claim C4, amended: when no word of the text is longer than \<open>W\<close>, every line of the
  justified wrap except the last one is exactly \<open>W\<close> characters long.
\<close>

theorem wrap_justified_width:
  assumes "\<forall>w \<in> set (py_split T). length w \<le> W"
  shows "\<forall>l \<in> set (butlast (wrap_text_justified T W True)). length l = W"
proof -
  obtain lines cur where run: "wrap_loop W True (py_split T) [] [] 0 = (lines, cur)"
    by (cases "wrap_loop W True (py_split T) [] [] 0")
  have inv: "(\<forall>l \<in> set lines. length l = W)
      \<and> (py_split T \<noteq> [] \<or> ([]::string list) \<noteq> [] \<longrightarrow> cur \<noteq> [])"
    using assms py_split_words[of T] run
    by (intro wrap_loop_justified[where lines = "[]" and len = 0]) auto
  show ?thesis
  proof (cases "cur = []")
    case True
    with inv have "py_split T = []" by simp
    with run have "lines = []" by simp
    with True run show ?thesis by (simp add: wrap_text_justified_def)
  next
    case False
    with run inv show ?thesis by (simp add: wrap_text_justified_def)
  qed
qed

theorem wrap_justified_width_witness:
  "list_all (\<lambda>w. length w \<le> 12) (py_split pangram)
   \<and> wrap_text_justified pangram 12 True
       = [''the    quick'', ''brown    fox'', ''jumps   over'', ''the lazy dog'']
   \<and> list_all (\<lambda>l. length l = 12) (butlast (wrap_text_justified pangram 12 True))"
proof -
  have h: "\<forall>w \<in> set (py_split pangram). length w \<le> 12"
    by (simp add: pangram_def py_split_def is_space_def)
  have v: "wrap_text_justified pangram 12 True
      = [''the    quick'', ''brown    fox'', ''jumps   over'', ''the lazy dog'']"
    by code_simp
  from h v wrap_justified_width[OF h] show ?thesis by (simp add: list_all_iff)
qed

section \<open>Rejoining the wrapped lines\<close>

lemma wrap_loop_rejoin:
  "wrap_loop W False ws lines cur len = (lines', cur') \<Longrightarrow>
   join_sp (if cur' \<noteq> [] then lines' @ [join_sp cur'] else lines') =
   join_sp ((if cur \<noteq> [] then lines @ [join_sp cur] else lines) @ ws)"
proof (induction ws arbitrary: lines cur len)
  case Nil
  then show ?case by auto
next
  case (Cons w ws)
  let ?flushed = "if cur \<noteq> [] then lines @ [join_sp cur] else lines"
  show ?case
  proof (cases "len + length w + length cur \<le> W")
    case True
    then have "wrap_loop W False ws lines (cur @ [w]) (len + length w) = (lines', cur')"
      using Cons.prems by simp
    then have "join_sp (if cur' \<noteq> [] then lines' @ [join_sp cur'] else lines') =
        join_sp (lines @ [join_sp (cur @ [w])] @ ws)"
      using Cons.IH[of lines "cur @ [w]" "len + length w"] by simp
    also have "\<dots> = join_sp (lines @ (cur @ [w]) @ ws)"
      by (rule join_sp_nested) simp
    also have "\<dots> = join_sp (?flushed @ w # ws)"
    proof (cases "cur = []")
      case True
      then show ?thesis by simp
    next
      case False
      then have "join_sp (lines @ [join_sp cur] @ (w # ws)) = join_sp (lines @ cur @ (w # ws))"
        by (rule join_sp_nested)
      then show ?thesis using False by simp
    qed
    finally show ?thesis .
  next
    case False
    then have "wrap_loop W False ws ?flushed [w] (length w) = (lines', cur')"
      using Cons.prems by (cases "cur = []") (simp_all add: Let_def)
    then have "join_sp (if cur' \<noteq> [] then lines' @ [join_sp cur'] else lines') =
        join_sp (?flushed @ [join_sp [w]] @ ws)"
      using Cons.IH[of ?flushed "[w]" "length w"] by simp
    then show ?thesis by simp
  qed
qed

text \<open>
  Claim C5, as stated: for every text \<open>T\<close> and every width at least the length of its
  longest word, the lines of the unjustified wrap, joined by single spaces, are \<open>T\<close>. It
  fails where \<open>T\<close> has a separator other than one space: \<open>split()\<close> drops the separators.
\<close>

theorem wrap_rejoin_counterexample:
  "list_all (\<lambda>w. length w \<le> 5) (py_split ''a  b'')
   \<and> join_sp (wrap_text_justified ''a  b'' 5 False) \<noteq> ''a  b''"
  by (simp add: wrap_text_justified_def py_split_def is_space_def)

text \<open>
  Claim C5, amended: for every text \<open>T\<close> and every width at least the length of its
  longest word, the lines of the unjustified wrap, joined by single spaces, are the words
  of \<open>T\<close> joined by single spaces (which is \<open>T\<close> itself when \<open>T\<close> is written that way), and
  split into the words of \<open>T\<close> again: no word is dropped, duplicated or reordered.
\<close>

theorem wrap_rejoin:
  assumes "\<forall>w \<in> set (py_split T). length w \<le> W"
  shows "join_sp (wrap_text_justified T W False) = join_sp (py_split T) \<and>
         py_split (join_sp (wrap_text_justified T W False)) = py_split T \<and>
         (T = join_sp (py_split T) \<longrightarrow> join_sp (wrap_text_justified T W False) = T)"
proof -
  obtain lines cur where run: "wrap_loop W False (py_split T) [] [] 0 = (lines, cur)"
    by (cases "wrap_loop W False (py_split T) [] [] 0")
  let ?out = "if cur \<noteq> [] then lines @ [join_sp cur] else lines"
  have j: "join_sp ?out = join_sp (py_split T)"
    using wrap_loop_rejoin[OF run] by simp
  have "join_sp (wrap_text_justified T W False) = join_sp ?out"
    using run by (simp add: wrap_text_justified_def Let_def)
  then have a: "join_sp (wrap_text_justified T W False) = join_sp (py_split T)"
    using j by simp
  have "py_split (join_sp (py_split T)) = py_split T"
    using py_split_words by (rule py_split_join)
  with a show ?thesis by simp
qed

theorem wrap_rejoin_witness:
  "list_all (\<lambda>w. length w \<le> 12) (py_split pangram)
   \<and> wrap_text_justified pangram 12 False
       = [''the quick'', ''brown fox'', ''jumps over'', ''the lazy dog'']
   \<and> join_sp (wrap_text_justified pangram 12 False) = pangram"
proof -
  have h: "\<forall>w \<in> set (py_split pangram). length w \<le> 12"
    by (simp add: pangram_def py_split_def is_space_def)
  have n: "pangram = join_sp (py_split pangram)"
    by (simp add: pangram_def py_split_def is_space_def)
  have v: "wrap_text_justified pangram 12 False
      = [''the quick'', ''brown fox'', ''jumps over'', ''the lazy dog'']"
    by code_simp
  from h n v wrap_rejoin[OF h] show ?thesis by (simp add: list_all_iff)
qed

section \<open>Rate-limit backoff\<close>

lemma upt_5: "[0..<5] = [0, 1, 2, 3, 4]"
  by (simp add: upt_rec)

text \<open>
  Claim C1, as stated: when all 5 attempts of a fetch are answered with status 429, the
  delays slept before the resolver gives up are 3, 6, 12, 24 and 48 seconds. It fails: the
  wait of the last attempt is computed and never slept, since \<open>attempt < max_retries - 1\<close>
  guards the sleep.
\<close>

theorem backoff_delays_counterexample:
  "fst (fetch_doi_from_semantic_scholar always_rate_limited 5) = Inr None
   \<and> fst (snd (fetch_doi_from_semantic_scholar always_rate_limited 5)) \<noteq> [3, 6, 12, 24, 48]"
  by (simp add: fetch_doi_from_semantic_scholar_def always_rate_limited_def upt_rec)

text \<open>
  Claim C1, amended: when all 5 attempts of a fetch are answered with status 429, the
  resolver returns no DOI and the delays slept are exactly 3, 6, 12 and 24 seconds, that is
  \<open>3 * 2 ^ attempt\<close> for the attempts 0 to 3; after the fifth answer it gives up without
  sleeping. Five requests have been sent by then.
\<close>

theorem backoff_delays:
  assumes "\<forall>attempt < 5. get attempt = HTTPError 429"
  shows "fetch_doi_from_semantic_scholar get 5 = (Inr None, [3, 6, 12, 24], 5)
         \<and> [3, 6, 12, 24 :: nat] = map (\<lambda>attempt. 3 * 2 ^ attempt) [0..<4]"
proof -
  have g: "get 0 = HTTPError 429" "get (Suc 0) = HTTPError 429" "get 2 = HTTPError 429"
    "get 3 = HTTPError 429" "get 4 = HTTPError 429"
    using assms by simp_all
  have "fetch_doi_from_semantic_scholar get 5 = (Inr None, [3, 6, 12, 24], 5)"
    by (simp add: fetch_doi_from_semantic_scholar_def upt_5 g)
  moreover have "[3, 6, 12, 24 :: nat] = map (\<lambda>attempt. 3 * 2 ^ attempt) [0..<4]"
    by (simp add: upt_rec)
  ultimately show ?thesis by simp
qed

theorem backoff_delays_witness:
  "fetch_doi_from_semantic_scholar always_rate_limited 5 = (Inr None, [3, 6, 12, 24], 5)"
proof -
  have h: "\<forall>attempt < 5. always_rate_limited attempt = HTTPError 429"
    by (simp add: always_rate_limited_def)
  from backoff_delays[OF h] show ?thesis by simp
qed

section \<open>Tables without columns or rows\<close>

text \<open>
  Claim C2, as stated: a table without columns or without rows is rendered as the
  placeholder line and nothing else. It fails for a table whose title is missing or not
  empty: the title line and an empty line come first.
\<close>

theorem format_table_unpopulated_counterexample:
  "lacks_structure untitled_table
   \<and> format_table (Some untitled_table) 94
       = [''TABLE: Table'', [], ''(Table data structure not fully populated)'']
   \<and> format_table (Some untitled_table) 94 \<noteq> [''(Table data structure not fully populated)'']"
  by (simp add: lacks_structure_def untitled_table_def format_table_def empty_dict_def
      get_default_def truthy_list_def truthy_str_def)

text \<open>
  Claim C2, amended: a table object with at least one key, without columns or without rows,
  is rendered as the placeholder line, once and last, after the line \<open>TABLE: title\<close> and an
  empty line when the title (\<open>Table\<close> when the key is missing) is a non-empty string, and
  alone when the title is empty or \<open>null\<close>.
\<close>

theorem format_table_unpopulated:
  assumes "lacks_structure t" and "\<not> empty_dict t"
  shows "format_table (Some t) width =
     (case get_default (table_title t) (Some ''Table'') of
        None \<Rightarrow> [not_populated]
      | Some s \<Rightarrow> if s = [] then [not_populated] else [''TABLE: '' @ s, [], not_populated])"
  using assms
  by (auto simp: format_table_def lacks_structure_def Let_def truthy_str_def not_populated_def
      split: option.splits)

theorem format_table_unpopulated_witness:
  "lacks_structure untitled_table \<and> \<not> empty_dict untitled_table
   \<and> format_table (Some untitled_table) 94 = [''TABLE: Table'', [], not_populated]
   \<and> lacks_structure id_only_table \<and> \<not> empty_dict id_only_table
   \<and> format_table (Some id_only_table) 94 = [''TABLE: Table'', [], not_populated]"
proof -
  have h1: "lacks_structure untitled_table"
    by (simp add: lacks_structure_def untitled_table_def get_default_def truthy_list_def)
  have h2: "\<not> empty_dict untitled_table"
    by (simp add: empty_dict_def untitled_table_def)
  have h3: "lacks_structure id_only_table"
    by (simp add: lacks_structure_def id_only_table_def get_default_def truthy_list_def)
  have h4: "\<not> empty_dict id_only_table"
    by (simp add: empty_dict_def id_only_table_def)
  have a: "format_table (Some untitled_table) 94 = [''TABLE: Table'', [], not_populated]"
    using format_table_unpopulated[OF h1 h2, of 94] by (simp add: untitled_table_def get_default_def)
  have b: "format_table (Some id_only_table) 94 = [''TABLE: Table'', [], not_populated]"
    using format_table_unpopulated[OF h3 h4, of 94] by (simp add: id_only_table_def get_default_def)
  from h1 h2 h3 h4 a b show ?thesis by simp
qed

section \<open>The two columns\<close>

text \<open>
  Claim C8, as stated: output line \<open>i\<close> is the \<open>i\<close>-th left line padded or truncated to
  exactly 95 characters, the delimiter, and the \<open>i\<close>-th right line. It fails for a left
  line longer than 95 characters: \<open>ljust\<close> leaves it as it is.
\<close>

theorem write_columns_counterexample:
  "write_columns [long_line] [''r''] ! 0
     \<noteq> pad_or_truncate left_width long_line @ '' | '' @ ''r'' @ [CHR 0x0A]"
  by (simp add: write_columns_def line_or_empty_def ljust_def left_width_def long_line_def
      pad_or_truncate_def)

text \<open>
  Claim C8, amended: the output has \<open>max (len left) (len right)\<close> lines; line \<open>i\<close> is the
  \<open>i\<close>-th left line followed by spaces up to 95 characters (none when the line is already
  that long: it is never truncated), the delimiter \<open>" | "\<close>, the \<open>i\<close>-th right line as it
  is, and a newline; a column that has no line \<open>i\<close> contributes the empty string.
\<close>

theorem write_columns_lines:
  "length (write_columns left_content right_content)
     = max (length left_content) (length right_content)
   \<and> (\<forall>i < max (length left_content) (length right_content).
        write_columns left_content right_content ! i
          = line_or_empty left_content i
            @ replicate (95 - length (line_or_empty left_content i)) (CHR '' '')
            @ '' | '' @ line_or_empty right_content i @ [CHR 0x0A])"
  by (simp add: write_columns_def ljust_def left_width_def)

theorem write_columns_lines_witness:
  "length (write_columns [''ab''] [''x'', ''y'']) = 2
   \<and> write_columns [''ab''] [''x'', ''y''] ! 1 = replicate 95 (CHR '' '') @ '' | y'' @ [CHR 0x0A]"
  using write_columns_lines[of "[''ab'']" "[''x'', ''y'']"]
  by (simp add: line_or_empty_def)

section \<open>The legacy import\<close>

lemma fold_nested:
  "fold (\<lambda>x. fold f (g x)) xs a = fold f (concat (map g xs)) a"
  by (induction xs arbitrary: a) simp_all

lemma import_legacy_fold:
  "import_legacy m sections c = fold (import_citation m) (all_citations sections) c"
proof -
  have e: "fold (import_citation []) cs c = c" for cs
    by (induction cs) (simp_all add: import_citation_def)
  have "fold (\<lambda>section. fold (import_citation m) (citations section)) sections c
      = fold (import_citation m) (all_citations sections) c"
    by (simp add: all_citations_def fold_nested)
  then show ?thesis using e by (simp add: import_legacy_def)
qed

lemma import_citation_existing:
  "map_of c cid \<noteq> None \<Longrightarrow> map_of (import_citation m ct c) cid = map_of c cid"
  by (auto simp: import_citation_def Let_def AList.update_conv' split: option.splits)

lemma fold_import_existing:
  "map_of c cid \<noteq> None \<Longrightarrow> map_of (fold (import_citation m) cs c) cid = map_of c cid"
proof (induction cs arbitrary: c)
  case Nil
  then show ?case by simp
next
  case (Cons ct cs)
  have "map_of (import_citation m ct c) cid = map_of c cid"
    using Cons.prems by (rule import_citation_existing)
  then show ?case using Cons.IH[of "import_citation m ct c"] Cons.prems by simp
qed

lemma import_legacy_existing:
  "map_of c cid \<noteq> None \<Longrightarrow> map_of (import_legacy m sections c) cid = map_of c cid"
  by (simp add: import_legacy_fold fold_import_existing)

text \<open>
  Claim C7: the legacy import never overwrites a cache entry. A corpus id that is a key of
  the cache before the import has the same value after it, whatever the legacy map holds;
  so the cache \<open>{"5": "10.1/a"}\<close> keeps its entry when the legacy map sends the label \<open>(X)\<close>
  of corpus id 5 to \<open>10.1/b\<close>.
\<close>

theorem import_legacy_never_overwrites:
  assumes "map_of doi_cache cid \<noteq> None"
  shows "map_of (import_legacy citation_text_map sections doi_cache) cid = map_of doi_cache cid"
  using assms by (rule import_legacy_existing)

theorem import_legacy_never_overwrites_witness:
  "map_of [(''5'', Some ''10.1/a'')] ''5'' \<noteq> None
   \<and> map_of (import_legacy [(''(X)'', ''10.1/b'')] legacy_report [(''5'', Some ''10.1/a'')]) ''5''
       = Some (Some ''10.1/a'')
   \<and> import_legacy [(''(X)'', ''10.1/b'')] legacy_report [] = [(''5'', Some ''10.1/b'')]"
proof -
  have h: "map_of [(''5'', Some ''10.1/a'')] ''5'' \<noteq> None" by simp
  have v: "import_legacy [(''(X)'', ''10.1/b'')] legacy_report [] = [(''5'', Some ''10.1/b'')]"
    by (simp add: import_legacy_def legacy_report_def citing_def cite_def import_citation_def)
  from import_legacy_never_overwrites[OF h, of "[(''(X)'', ''10.1/b'')]" legacy_report] v
  show ?thesis by simp
qed

lemma import_citation_cong:
  "map_of m (display ct) = map_of m' (display ct) \<Longrightarrow> import_citation m ct = import_citation m' ct"
  by (simp add: import_citation_def fun_eq_iff)

lemma import_legacy_cong:
  assumes "\<forall>ct \<in> set (all_citations sections). map_of m (display ct) = map_of m' (display ct)"
  shows "import_legacy m sections c = import_legacy m' sections c"
  unfolding import_legacy_fold
  using assms by (intro fold_cong) (auto intro: import_citation_cong)

lemma fold_import_changes:
  assumes "map_of (fold (import_citation m) cs c) cid \<noteq> map_of c cid"
  shows "map_of c cid = None \<and>
    (\<exists>ct \<in> set cs. corpus_id ct = cid \<and>
       (\<exists>d. map_of m (display ct) = Some d \<and>
            map_of (fold (import_citation m) cs c) cid = Some (Some d)))"
  using assms
proof (induction cs arbitrary: c)
  case Nil
  then show ?case by simp
next
  case (Cons x xs)
  let ?c1 = "import_citation m x c"
  let ?r = "fold (import_citation m) xs ?c1"
  show ?case
  proof (cases "map_of ?c1 cid = map_of c cid")
    case True
    then have "map_of ?r cid \<noteq> map_of ?c1 cid" using Cons.prems by simp
    from Cons.IH[OF this] True show ?thesis by auto
  next
    case False
    then have ch: "corpus_id x = cid" "map_of c cid = None"
      "\<exists>d. map_of m (display x) = Some d \<and> map_of ?c1 cid = Some (Some d)"
      by (auto simp: import_citation_def Let_def AList.update_conv' split: option.splits if_splits)
    then have "map_of ?c1 cid \<noteq> None" by auto
    then have "map_of ?r cid = map_of ?c1 cid" by (rule fold_import_existing)
    with ch show ?thesis by auto
  qed
qed

text \<open>
  Claim C10: the legacy import reads the legacy map only at the display labels of the
  report's citations. An entry whose label is no citation's display label changes nothing:
  the import gives the same cache with and without it. Every cache value that the import
  changes belongs to a corpus id that was not a key before, is cited in the report, and is
  the DOI the legacy map gives for that citation's display label.
\<close>

theorem import_legacy_unmatched_label:
  assumes "label \<notin> display ` set (all_citations sections)"
  shows "import_legacy citation_text_map sections doi_cache
           = import_legacy (AList.delete label citation_text_map) sections doi_cache
         \<and> (\<forall>cid. map_of (import_legacy citation_text_map sections doi_cache) cid
                     \<noteq> map_of doi_cache cid \<longrightarrow>
               map_of doi_cache cid = None \<and>
               (\<exists>ct \<in> set (all_citations sections). corpus_id ct = cid \<and>
                  (\<exists>d. map_of citation_text_map (display ct) = Some d \<and>
                     map_of (import_legacy citation_text_map sections doi_cache) cid
                       = Some (Some d))))"
proof -
  have "\<forall>ct \<in> set (all_citations sections).
      map_of citation_text_map (display ct)
        = map_of (AList.delete label citation_text_map) (display ct)"
    using assms by (auto simp: AList.delete_conv')
  then have "import_legacy citation_text_map sections doi_cache
      = import_legacy (AList.delete label citation_text_map) sections doi_cache"
    by (rule import_legacy_cong)
  then show ?thesis
    using fold_import_changes[of citation_text_map "all_citations sections" doi_cache]
    by (simp add: import_legacy_fold)
qed

theorem import_legacy_unmatched_label_witness:
  "''(Z)'' \<notin> display ` set (all_citations legacy_report)
   \<and> import_legacy [(''(Z)'', ''10.9/z''), (''(Y)'', ''10.1/c'')] legacy_report [(''5'', Some ''10.1/a'')]
       = [(''5'', Some ''10.1/a''), (''6'', Some ''10.1/c'')]
   \<and> import_legacy [(''(Y)'', ''10.1/c'')] legacy_report [(''5'', Some ''10.1/a'')]
       = [(''5'', Some ''10.1/a''), (''6'', Some ''10.1/c'')]"
proof -
  have h: "''(Z)'' \<notin> display ` set (all_citations legacy_report)"
    by (simp add: all_citations_def legacy_report_def citing_def cite_def)
  have v: "import_legacy [(''(Y)'', ''10.1/c'')] legacy_report [(''5'', Some ''10.1/a'')]
       = [(''5'', Some ''10.1/a''), (''6'', Some ''10.1/c'')]"
    by (simp add: import_legacy_def legacy_report_def citing_def cite_def import_citation_def)
  have d: "AList.delete ''(Z)'' [(''(Z)'', ''10.9/z''), (''(Y)'', ''10.1/c'')] = [(''(Y)'', ''10.1/c'')]"
    by (simp add: AList.delete_eq)
  from import_legacy_unmatched_label[OF h, of "[(''(Z)'', ''10.9/z''), (''(Y)'', ''10.1/c'')]"
      "[(''5'', Some ''10.1/a'')]"] h v d
  show ?thesis by simp
qed

section \<open>The fetch loop\<close>

lemma fetch_each_cache:
  "fetch_each service n i ids s = (r, s') \<Longrightarrow>
   (\<forall>k. map_of (cache s) k \<noteq> None \<longrightarrow> map_of (cache s') k \<noteq> None)
   \<and> (r = Inr () \<longrightarrow> (\<forall>k \<in> set ids. map_of (cache s') k \<noteq> None))"
proof (induction ids arbitrary: i s)
  case Nil
  then show ?case by simp
next
  case (Cons cid ids)
  obtain result waits sent where
    f: "fetch_doi_from_semantic_scholar (service cid) 5 = (result, waits, sent)"
    by (cases "fetch_doi_from_semantic_scholar (service cid) 5")
  let ?s1 = "s\<lparr>lookups := lookups s @ [cid], requests := requests s @ replicate sent cid,
      slept := slept s @ waits\<rparr>"
  show ?case
  proof (cases result)
    case (Inl e)
    then have "r = Inl e" "s' = ?s1" using Cons.prems f by simp_all
    then show ?thesis by simp
  next
    case (Inr doi)
    let ?s2 = "?s1\<lparr>cache := AList.update cid doi (cache ?s1)\<rparr>"
    let ?s3 = "if i < n then ?s2\<lparr>slept := slept ?s2 @ [2]\<rparr> else ?s2"
    have run: "fetch_each service n (Suc i) ids ?s3 = (r, s')"
      using Cons.prems f Inr by (cases "i < n") (simp_all add: Let_def)
    have c3: "map_of (cache ?s3) = (map_of (cache s))(cid \<mapsto> doi)"
      by (simp add: AList.update_conv')
    from Cons.IH[OF run] have
      ih: "\<forall>k. map_of (cache ?s3) k \<noteq> None \<longrightarrow> map_of (cache s') k \<noteq> None"
        "r = Inr () \<longrightarrow> (\<forall>k \<in> set ids. map_of (cache s') k \<noteq> None)"
      by blast+
    have "map_of (cache ?s3) cid \<noteq> None" using c3 by simp
    then have here: "map_of (cache s') cid \<noteq> None" using ih(1) by blast
    have "\<forall>k. map_of (cache s) k \<noteq> None \<longrightarrow> map_of (cache ?s3) k \<noteq> None"
      using c3 by simp
    then have mono: "\<forall>k. map_of (cache s) k \<noteq> None \<longrightarrow> map_of (cache s') k \<noteq> None"
      using ih(1) by blast
    show ?thesis using mono here ih(2) by simp
  qed
qed

text \<open>
  Claim C6: in every run that reaches rendering, every corpus id of a citation of a section
  is a key of the cache (its value may be \<open>None\<close>: looked up, no DOI found). Rendering reads
  the cache at the corpus ids of the sections' citations only (\<open>add_reference\<close>), so every
  \<open>doi_cache.get\<close> of rendering finds its key and returns the stored value.
\<close>

theorem cited_ids_cached:
  assumes "iterates ids sections"
    and "resolve_all service ids citation_text_map sections loaded = (Inr (), s)"
  shows "\<forall>c \<in> set (all_citations sections).
           \<exists>v. map_of (cache s) (corpus_id c) = Some v \<and> cache_get (cache s) (corpus_id c) = v"
proof
  fix c assume c: "c \<in> set (all_citations sections)"
  define c1 where "c1 = import_legacy citation_text_map sections loaded"
  define tf where "tf = to_fetch ids c1"
  have run: "fetch_each service (length tf) 1 tf \<lparr>cache = c1, lookups = [], requests = [], slept = []\<rparr> = (Inr (), s)"
    using assms(2) by (simp add: resolve_all_def Let_def c1_def tf_def)
  have facts: "\<forall>k. map_of c1 k \<noteq> None \<longrightarrow> map_of (cache s) k \<noteq> None"
    "\<forall>k \<in> set tf. map_of (cache s) k \<noteq> None"
    using fetch_each_cache[OF run] by simp_all
  have "corpus_id c \<in> set ids" using assms(1) c by (simp add: iterates_def)
  then have "map_of c1 (corpus_id c) \<noteq> None \<or> corpus_id c \<in> set tf"
    by (auto simp: tf_def to_fetch_def)
  then have "map_of (cache s) (corpus_id c) \<noteq> None" using facts by blast
  then show "\<exists>v. map_of (cache s) (corpus_id c) = Some v \<and> cache_get (cache s) (corpus_id c) = v"
    by (auto simp: cache_get_def)
qed

theorem cited_ids_cached_witness:
  "iterates [''3'', ''1'', ''2''] two_section_report
   \<and> resolve_all sample_service [''3'', ''1'', ''2''] [] two_section_report [(''1'', Some ''10.1/x'')]
       = (Inr (), \<lparr>cache = [(''1'', Some ''10.1/x''), (''3'', None), (''2'', Some ''10.1/y'')],
                   lookups = [''3'', ''2''], requests = [''3'', ''3'', ''2''],
                   slept = [3, 2]\<rparr>)
   \<and> list_all (\<lambda>c. map_of [(''1'', Some ''10.1/x''), (''3'', None), (''2'', Some ''10.1/y'')]
                      (corpus_id c) \<noteq> None)
        (all_citations two_section_report)"
proof -
  have h1: "iterates [''3'', ''1'', ''2''] two_section_report"
    by code_simp
  have h2: "resolve_all sample_service [''3'', ''1'', ''2''] [] two_section_report [(''1'', Some ''10.1/x'')]
       = (Inr (), \<lparr>cache = [(''1'', Some ''10.1/x''), (''3'', None), (''2'', Some ''10.1/y'')],
                   lookups = [''3'', ''2''], requests = [''3'', ''3'', ''2''],
                   slept = [3, 2]\<rparr>)"
    by code_simp
  from cited_ids_cached[OF h1 h2] h1 h2 show ?thesis by (auto simp: list_all_iff)
qed










section \<open>The reference list\<close>

lemma all_references_fold:
  "all_references sections c = fold (add_reference c) (all_citations sections) []"
  by (simp add: all_references_def all_citations_def fold_nested)

lemma add_reference_map_of:
  "map_of (add_reference c ct acc) n =
     (case map_of acc n of
        Some v \<Rightarrow> Some v
      | None \<Rightarrow> if display ct = n then Some (cache_get c (corpus_id ct)) else None)"
  by (auto simp: add_reference_def Let_def AList.update_conv' split: option.splits)

lemma fold_add_reference_map_of:
  "map_of (fold (add_reference c) cs acc) n =
     (case map_of acc n of
        Some v \<Rightarrow> Some v
      | None \<Rightarrow>
          (case find (\<lambda>ct. display ct = n) cs of
             None \<Rightarrow> None
           | Some ct \<Rightarrow> Some (cache_get c (corpus_id ct))))"
proof (induction cs arbitrary: acc)
  case Nil
  then show ?case by (simp split: option.splits)
next
  case (Cons ct cs)
  show ?case
    by (simp add: Cons.IH add_reference_map_of split: option.splits)
qed

lemma add_reference_distinct:
  "distinct (map fst acc) \<Longrightarrow> distinct (map fst (add_reference c ct acc))"
  by (simp add: add_reference_def Let_def AList.distinct_update)

lemma fold_add_reference_distinct:
  "distinct (map fst acc) \<Longrightarrow> distinct (map fst (fold (add_reference c) cs acc))"
  by (induction cs arbitrary: acc) (simp_all add: add_reference_distinct)

lemma distinct_all_references: "distinct (map fst (all_references sections c))"
  by (simp add: all_references_fold fold_add_reference_distinct)

lemma map_of_all_references:
  "map_of (all_references sections c) n =
     (case find (\<lambda>ct. display ct = n) (all_citations sections) of
        None \<Rightarrow> None
      | Some ct \<Rightarrow> Some (cache_get c (corpus_id ct)))"
  by (simp add: all_references_fold fold_add_reference_map_of)

lemma keys_all_references:
  "fst ` set (all_references sections c) = display ` set (all_citations sections)"
proof -
  have "dom (map_of (all_references sections c)) = display ` set (all_citations sections)"
    by (auto simp: map_of_all_references dom_def find_None_iff image_iff split: option.splits
        dest: find_Some_iff[THEN iffD1])
  then show ?thesis by (simp add: dom_map_of_conv_image_fst)
qed


lemma distinct_keys_sort_key:
  "distinct (map f (sort_key f xs)) = distinct (map f xs)"
  by (induction xs) (simp_all add: distinct_insort_key)

lemma pairs_of_keys:
  assumes "distinct (map fst xs)"
  shows "xs = map (\<lambda>n. (n, the (map_of xs n))) (map fst xs)"
proof -
  have "map (\<lambda>p. (fst p, the (map_of xs (fst p)))) xs = map (\<lambda>p. p) xs"
    using assms by (intro map_cong) auto
  then show ?thesis by (simp add: comp_def)
qed

lemma sort_key_fst_unique:
  assumes "distinct (map fst xs)"
  shows "sort_key fst xs
    = map (\<lambda>n. (n, the (map_of xs n))) (sorted_list_of_set (fst ` set xs))"
proof -
  let ?ys = "sort_key fst xs"
  have d: "distinct (map fst ?ys)" using assms by (simp add: distinct_keys_sort_key)
  have s: "sorted (map fst ?ys)" by simp
  have keys: "map fst ?ys = sorted_list_of_set (fst ` set xs)"
    using sorted_list_of_set.idem_if_sorted_distinct[OF s d] by simp
  have m: "map_of ?ys = map_of xs"
    using d assms by (simp add: map_of_inject_set)
  have "?ys = map (\<lambda>n. (n, the (map_of ?ys n))) (map fst ?ys)"
    using d by (rule pairs_of_keys)
  then show ?thesis using keys m by simp
qed

text \<open>
  Claim C3: the reference lines of the right column are obtained from all citations of all
  sections in order, keeping for each display name the DOI of its first occurrence, sorted
  by display name in the order of strings, each entry rendered as
  \<open>display_name -> https://doi.org/doi\<close> when a DOI is there and as
  \<open>display_name -> NO DOI FOUND\<close> when it is not.
\<close>

theorem reference_lines_refine:
  "reference_lines sections doi_cache
     = map (\<lambda>(display_name, doi). spec_reference_line display_name doi)
         (spec_references sections doi_cache)"
proof -
  let ?refs = "all_references sections doi_cache"
  let ?names = "sorted_list_of_set (display ` set (all_citations sections))"
  have sorted: "sorted_refs sections doi_cache = map (\<lambda>n. (n, the (map_of ?refs n))) ?names"
    using sort_key_fst_unique[OF distinct_all_references, of sections doi_cache]
    by (simp add: sorted_refs_def keys_all_references)
  have val: "the (map_of ?refs n) = first_seen_doi sections doi_cache n"
    if "n \<in> display ` set (all_citations sections)" for n
  proof -
    from that have "find (\<lambda>ct. display ct = n) (all_citations sections) \<noteq> None"
      by (auto simp: find_None_iff)
    then show ?thesis
      by (auto simp: map_of_all_references first_seen_doi_def)
  qed
  have "map (\<lambda>n. (n, the (map_of ?refs n))) ?names
      = map (\<lambda>n. (n, first_seen_doi sections doi_cache n)) ?names"
    using val by (intro map_cong) simp_all
  then have refs: "sorted_refs sections doi_cache = spec_references sections doi_cache"
    using sorted by (simp add: spec_references_def)
  have line: "reference_line r = (case r of (n, d) \<Rightarrow> spec_reference_line n d)" for r
    by (cases r) (auto simp: reference_line_def spec_reference_line_def truthy_str_def
        split: option.splits)
  show ?thesis
    unfolding reference_lines_def refs by (rule map_cong) (simp_all add: line)
qed

theorem reference_lines_refine_witness:
  "reference_lines two_section_report sample_cache
     = [''(A, 2020) -> https://doi.org/10.1/x'', ''(B, 2021) -> NO DOI FOUND'',
        ''(C, 2019) -> https://doi.org/10.1/z'']"
proof -
  have "map (\<lambda>(display_name, doi). spec_reference_line display_name doi)
         (spec_references two_section_report sample_cache)
     = [''(A, 2020) -> https://doi.org/10.1/x'', ''(B, 2021) -> NO DOI FOUND'',
        ''(C, 2019) -> https://doi.org/10.1/z'']"
    by code_simp
  with reference_lines_refine[of two_section_report sample_cache] show ?thesis by simp
qed

end
